theory Spec2Isabelle
  imports Main "HOL-Library.Word" "HOL-Library.Sublist"
begin

unbundle bit_operations_syntax

section \<open>Bytes and the serial port\<close>

text \<open>
  A Python \<open>bytes\<close> object is a list of 8-bit words; indexing it gives an \<open>int\<close>
  in \<open>0..255\<close>, which is \<open>uint\<close> of the word.  Python's own integers are unbounded
  and are modelled by \<open>int\<close>.
\<close>

type_synonym byte = "8 word"
type_synonym bytes = "byte list"

text \<open>
  \<open>bytes([i, j, ...])\<close> raises \<open>ValueError\<close> unless every element is in \<open>range(256)\<close>.
  \<open>py_bytes\<close> is that constructor with the failure as \<open>None\<close>.
\<close>

definition py_bytes :: "int list \<Rightarrow> bytes option" where
  "py_bytes xs = (if list_all (\<lambda>x. 0 \<le> x \<and> x < 256) xs then Some (map word_of_int xs) else None)"

text \<open>
  Everything the program does to the serial port is recorded in order.  The port is
  driven by a script \<open>rx\<close> of what the peer delivers: \<open>Some b\<close> is a byte that arrives,
  \<open>None\<close> is a silence that outlasts whichever timeout is running.  An exhausted
  script is silence for ever.  Time is not modelled beyond that: the bytes before a
  silence arrive in time, and \<open>time.sleep\<close> and \<open>flush\<close>, which change nothing that is
  recorded, are left out, as is everything that is only printed.
\<close>

datatype event =
    Open
  | Write bytes
  | Read bytes
  | ReadAll bytes
  | ResetInput
  | Close

record serial =
  rx :: "byte option list"
  trace :: "event list"

definition ser_write :: "serial \<Rightarrow> bytes \<Rightarrow> serial" where
  "ser_write p bs = p\<lparr>trace := trace p @ [Write bs]\<rparr>"

text \<open>\<open>ser.read(1)\<close>: one byte, or \<open>b''\<close> when the read times out.\<close>

definition ser_read1 :: "serial \<Rightarrow> bytes \<times> serial" where
  "ser_read1 p =
     (case rx p of
        [] \<Rightarrow> ([], p\<lparr>trace := trace p @ [Read []]\<rparr>)
      | None # rs \<Rightarrow> ([], p\<lparr>rx := rs, trace := trace p @ [Read []]\<rparr>)
      | Some b # rs \<Rightarrow> ([b], p\<lparr>rx := rs, trace := trace p @ [Read [b]]\<rparr>))"

text \<open>\<open>ser.in_waiting\<close>: the number of bytes already received.\<close>

definition in_waiting :: "serial \<Rightarrow> nat" where
  "in_waiting p = length (takeWhile (\<lambda>r. r \<noteq> None) (rx p))"

text \<open>
  \<open>ser.read_all()\<close> returns what has been received so far and
  \<open>ser.reset_input_buffer()\<close> throws it away: both take the bytes up to the next
  silence, and that silence has passed afterwards.
\<close>

definition received :: "serial \<Rightarrow> bytes" where
  "received p = map the (takeWhile (\<lambda>r. r \<noteq> None) (rx p))"

definition after_silence :: "serial \<Rightarrow> byte option list" where
  "after_silence p = tl (dropWhile (\<lambda>r. r \<noteq> None) (rx p))"

definition read_all :: "serial \<Rightarrow> bytes \<times> serial" where
  "read_all p =
     (received p, p\<lparr>rx := after_silence p, trace := trace p @ [ReadAll (received p)]\<rparr>)"

definition reset_input_buffer :: "serial \<Rightarrow> serial" where
  "reset_input_buffer p = p\<lparr>rx := after_silence p, trace := trace p @ [ResetInput]\<rparr>"

section \<open>tools/load_program.py: class XModemSender\<close>

definition SOH :: int where "SOH = 0x01"
definition EOT :: int where "EOT = 0x04"
definition ACK :: int where "ACK = 0x06"
definition NAK :: int where "NAK = 0x15"

text \<open>The sender object: its port and its packet counter (\<open>verbose\<close> only prints).\<close>

record XModemSender =
  ser :: serial
  packet_num :: int

definition XModemSender_init :: "serial \<Rightarrow> XModemSender" where
  "XModemSender_init p = \<lparr>ser = p, packet_num = 1\<rparr>"

definition calculate_checksum :: "bytes \<Rightarrow> int" where
  "calculate_checksum data = sum_list (map uint data) AND 0xFF"

text \<open>
  The first lines of \<open>send_packet\<close>, up to the write: pad, then header, data and checksum.
  The three header integers and the checksum are masked with \<open>0xFF\<close>, so \<open>bytes([...])\<close>
  cannot raise there (lemma \<open>build_packet_header_in_range\<close>) and \<open>word_of_int\<close> is exact.
\<close>

definition pad128 :: "bytes \<Rightarrow> bytes" where
  "pad128 data = data @ replicate (128 - length data) 0"

definition build_packet :: "int \<Rightarrow> bytes \<Rightarrow> bytes" where
  "build_packet pnum data =
     (let packet_data = pad128 data;
          packet = map word_of_int [SOH, pnum AND 0xFF, (NOT pnum) AND 0xFF];
          packet = packet @ packet_data;
          packet = packet @ map word_of_int [calculate_checksum packet_data]
      in packet)"

definition send_packet :: "XModemSender \<Rightarrow> bytes \<Rightarrow> bool \<times> XModemSender" where
  "send_packet s data =
     (let packet = build_packet (packet_num s) data;
          p1 = ser_write (ser s) packet;
          (response, p2) = ser_read1 p1
      in if length response = 0 then (False, s\<lparr>ser := p2\<rparr>)
         else if uint (response ! 0) = ACK then (True, s\<lparr>ser := p2, packet_num := packet_num s + 1\<rparr>)
         else if uint (response ! 0) = NAK then (False, s\<lparr>ser := p2\<rparr>)
         else (False, s\<lparr>ser := p2\<rparr>))"

text \<open>
  \<open>send_file\<close>, first loop: wait for the receiver's first NAK, reading a byte whenever
  one is waiting and ignoring every other byte; give up (\<open>False\<close>) when nothing more
  arrives before the three seconds are over.
\<close>

function wait_for_nak :: "serial \<Rightarrow> bool \<times> serial" where
  "wait_for_nak p =
     (if in_waiting p > 0 then
        (let (ch, p') = ser_read1 p
         in if uint (ch ! 0) = NAK then (True, p') else wait_for_nak p')
      else (False, p))"
  by pat_completeness auto
termination
proof (relation "measure (\<lambda>p. length (rx p))")
  show "wf (measure (\<lambda>p. length (rx p)))" by simp
next
  fix p :: serial and x :: "bytes \<times> serial" and xa ya
  assume "0 < in_waiting p" "x = ser_read1 p" "(xa, ya) = x"
  then show "(ya, p) \<in> measure (\<lambda>p. length (rx p))"
    by (auto simp: in_waiting_def ser_read1_def split: list.splits option.splits)
qed

text \<open>
  The inner loop \<open>while retries < max_retries\<close> for one chunk.  It returns the loop
  variables it leaves behind: \<open>retries\<close>, \<open>offset\<close> and the sender.  The progress bar
  (\<open>packets_sent\<close>, \<open>total_packets\<close>) is only printed.
\<close>

function retry_loop ::
  "int \<Rightarrow> bytes \<Rightarrow> int \<Rightarrow> nat \<Rightarrow> XModemSender \<Rightarrow> int \<times> nat \<times> XModemSender" where
  "retry_loop max_retries chunk retries offset s =
     (if retries < max_retries then
        (case send_packet s chunk of
           (True, s') \<Rightarrow> (retries, offset + length chunk, s')
         | (False, s') \<Rightarrow> retry_loop max_retries chunk (retries + 1) offset s')
      else (retries, offset, s))"
  by pat_completeness auto
termination
  by (relation "measure (\<lambda>(m, c, r, off, s). nat (m - r))") auto

declare wait_for_nak.simps [simp del]
declare retry_loop.simps [simp del]

lemma retry_loop_offset:
  "retry_loop m c r off s = (r', off', s') \<Longrightarrow> r' < m \<Longrightarrow> off' = off + length c"
proof (induction m c r off s rule: retry_loop.induct)
  case (1 m c r off s)
  show ?case
  proof (cases "r < m")
    case False
    with "1.prems" show ?thesis by (simp add: retry_loop.simps [of m c r off s])
  next
    case True
    obtain ok s1 where sp: "send_packet s c = (ok, s1)" by (cases "send_packet s c")
    show ?thesis
    proof (cases ok)
      case True
      with \<open>r < m\<close> sp "1.prems" show ?thesis
        by (simp add: retry_loop.simps [of m c r off s])
    next
      case False
      with \<open>r < m\<close> sp "1.prems" have "retry_loop m c (r + 1) off s1 = (r', off', s')"
        by (simp add: retry_loop.simps [of m c r off s])
      with "1.IH" [OF \<open>r < m\<close> sp [symmetric]] False "1.prems" show ?thesis by simp
    qed
  qed
qed

text \<open>
  The outer loop \<open>while offset < len(data)\<close>: \<open>data[offset:offset+128]\<close> is
  \<open>take 128 (drop offset data)\<close>.  It ends with \<open>False\<close> at the \<open>return False\<close> of
  "Max retries exceeded" and with \<open>True\<close> when the loop condition fails.
\<close>

function send_chunks :: "int \<Rightarrow> bytes \<Rightarrow> nat \<Rightarrow> XModemSender \<Rightarrow> bool \<times> XModemSender" where
  "send_chunks max_retries data offset s =
     (if offset < length data then
        (let chunk = take 128 (drop offset data)
         in case retry_loop max_retries chunk 0 offset s of
              (retries, offset', s') \<Rightarrow>
                if retries \<ge> max_retries then (False, s')
                else send_chunks max_retries data offset' s')
      else (True, s))"
  by pat_completeness auto
termination
proof (relation "measure (\<lambda>(m, d, off, s). length d - off)")
  show "wf (measure (\<lambda>(m, d, off, s). length d - off))" by simp
next
  fix max_retries :: int and data :: bytes and offset :: nat and s :: XModemSender
    and x xa y xb ya
  assume a: "offset < length data" "x = take 128 (drop offset data)"
    "(xa, y) = retry_loop max_retries x 0 offset s" "(xb, ya) = y" "\<not> max_retries \<le> xa"
  from a(3,4) have "retry_loop max_retries x 0 offset s = (xa, xb, ya)" by simp
  with a(5) have "xb = offset + length x"
    using retry_loop_offset [of max_retries x 0 offset s xa xb ya] by simp
  moreover from a(1,2) have "0 < length x" by simp
  ultimately show "((max_retries, data, xb, ya), (max_retries, data, offset, s))
      \<in> measure (\<lambda>(m, d, off, s). length d - off)"
    using a(1) by (cases x) simp_all
qed

declare send_chunks.simps [simp del]

text \<open>\<open>send_file(data, max_retries=10)\<close>: the handshake, the chunks, then EOT.\<close>

definition send_file :: "XModemSender \<Rightarrow> bytes \<Rightarrow> int \<Rightarrow> bool \<times> XModemSender" where
  "send_file s data max_retries =
     (case wait_for_nak (ser s) of
        (False, p) \<Rightarrow> (False, s\<lparr>ser := p\<rparr>)
      | (True, p) \<Rightarrow>
          (case send_chunks max_retries data 0 (s\<lparr>ser := p\<rparr>) of
             (False, s1) \<Rightarrow> (False, s1)
           | (True, s1) \<Rightarrow>
               (let p1 = ser_write (ser s1) (map word_of_int [EOT]);
                    (response, p2) = ser_read1 p1
                in if length response > 0 \<and> uint (response ! 0) = ACK
                   then (True, s1\<lparr>ser := p2\<rparr>)
                   else (False, s1\<lparr>ser := p2\<rparr>))))"

section \<open>tools/load_program.py: load_program\<close>

text \<open>
  What \<open>open(binary_path, 'rb').read()\<close> gives, and what \<open>serial.Serial(port, ...)\<close>
  gives: \<open>None\<close> when the port cannot be opened (\<open>SerialException\<close>), else the script
  of the peer.  The result is the exit code and everything done to the port.
  \<open>decode('latin1')\<close> maps every byte to the character of the same number, so the
  test \<open>'> ' not in response\<close> is made on the bytes.  The \<open>with\<close> statement closes the
  port on every way out.  A \<open>SerialException\<close> is modelled where the port is opened, a
  \<open>KeyboardInterrupt\<close> not at all.
\<close>

datatype binary_file = FileNotFoundError | IOError | Contents bytes

definition load_program :: "binary_file \<Rightarrow> byte option list option \<Rightarrow> bool \<Rightarrow> int \<times> event list" where
  "load_program binary_path port execute =
     (case binary_path of
        FileNotFoundError \<Rightarrow> (1, [])
      | IOError \<Rightarrow> (1, [])
      | Contents binary_data \<Rightarrow>
          if length binary_data = 0 then (1, [])
          else
            (case port of
               None \<Rightarrow> (2, [])
             | Some script \<Rightarrow>
                 (let p = \<lparr>rx = script, trace = [Open]\<rparr>;
                      p = reset_input_buffer p;
                      p = ser_write p [0x0D];
                      (response, p) = read_all p
                  in if \<not> sublist [0x3E, 0x20] response then (1, trace p @ [Close])
                     else
                       (let p = ser_write p [0x4C, 0x0D];
                            xmodem = XModemSender_init p;
                            (success, xmodem) = send_file xmodem binary_data 10
                        in if \<not> success then (1, trace (ser xmodem) @ [Close])
                           else
                             (let (response, p) = read_all (ser xmodem);
                                  p = (if execute
                                       then (let p = ser_write p [0x4A, 0x0D];
                                                 (response, p) = read_all p
                                             in p)
                                       else p)
                              in (0, trace p @ [Close]))))))"

section \<open>firmware/examples/simple_xmodem.py: send_packet\<close>

definition CAN :: int where "CAN = 0x18"

text \<open>
  The packet that \<open>send_packet(ser, packet_num, data)\<close> of the example sender builds.
  Here the sequence number is not masked, so \<open>bytes([SOH, packet_num, complement])\<close>
  raises for a \<open>packet_num\<close> outside \<open>0..255\<close>.
\<close>

definition simple_build_packet :: "int \<Rightarrow> bytes \<Rightarrow> bytes option" where
  "simple_build_packet pnum data0 =
     (let data = (if length data0 < 128 then data0 @ replicate (128 - length data0) 0 else data0);
          checksum = sum_list (map uint data) AND 0xFF;
          complement = (255 - pnum) AND 0xFF
      in case py_bytes [SOH, pnum, complement] of
           None \<Rightarrow> None
         | Some hdr \<Rightarrow>
             (case py_bytes [checksum] of
                None \<Rightarrow> None
              | Some ck \<Rightarrow> Some (hdr @ data @ ck)))"

section \<open>tests/firmware/conftest.py: class MonitorHelper\<close>













section \<open>Address validation and the load sequence\<close>

text \<open>
  Modelled from the spec: \<open>AddressValidator.validate\<close> (section 4.5).  In the repository
  the load address is checked by the L command of the monitor firmware, which is not among
  the Python sources; only its placeholder test \<open>test_xmodem_address_validation\<close> is.
\<close>

datatype AddressError = TooLow | InReservedSpace

definition validate :: "16 word \<Rightarrow> AddressError + unit" where
  "validate addr =
     (if addr < 0x0200 then Inl TooLow
      else if addr > 0x7FFF then Inl InReservedSpace
      else Inr ())"

text \<open>
  Modelled from the spec: \<open>ProgramLoader.load\<close> (section 4.4), step 1 and the rule that a
  failing step aborts the whole operation; it is missing from the sources, where
  \<open>load_program\<close> takes no address.  Steps 2 to 6 (prompt, begin-receive command, transfer,
  verification, execution) are the parameter \<open>steps_2_to_6\<close>.
\<close>

record LoadRequest =
  target_address :: "16 word"
  payload :: bytes
  execute :: bool

definition load ::
  "(LoadRequest \<Rightarrow> serial \<Rightarrow> 'a \<times> serial) \<Rightarrow> LoadRequest \<Rightarrow> serial \<Rightarrow> (AddressError + 'a) \<times> serial" where
  "load steps_2_to_6 request p =
     (case validate (target_address request) of
        Inl e \<Rightarrow> (Inl e, p)
      | Inr u \<Rightarrow> (case steps_2_to_6 request p of (r, p') \<Rightarrow> (Inr r, p')))"


section \<open>Peer scripts and the traces they are expected to give\<close>

text \<open>
  These definitions are not code of the repository: they name the peers and the traces
  that the properties proved below speak of.  \<open>resp r\<close> is what \<open>ser.read(1)\<close> returns for the script entry
  \<open>r\<close>; an attempt is one packet written and one response read.
\<close>

definition resp :: "byte option \<Rightarrow> bytes" where
  "resp r = (case r of None \<Rightarrow> [] | Some b \<Rightarrow> [b])"

definition attempt :: "int \<Rightarrow> bytes \<Rightarrow> byte option \<Rightarrow> event list" where
  "attempt pn c r = [Write (build_packet pn c), Read (resp r)]"

definition chunk_at :: "bytes \<Rightarrow> nat \<Rightarrow> bytes" where
  "chunk_at data off = take 128 (drop off data)"

text \<open>
  A peer that answers the chunks one after the other: for each chunk a list \<open>bad\<close> of
  responses that are not Ack (Nak, any other byte, or a timeout \<open>None\<close>), fewer than
  \<open>max_retries\<close> of them, and then Ack.  \<open>script_of\<close> is what such a peer sends and
  \<open>acked_run\<close> is the trace expected of the sender: every chunk written once per response,
  with the same packet number, and the number one higher for the next chunk.
\<close>

definition bad_ok :: "int \<Rightarrow> byte option list \<Rightarrow> bool" where
  "bad_ok m bad = (int (length bad) < m \<and> list_all (\<lambda>r. r \<noteq> Some 0x06) bad)"

definition script_of :: "byte option list list \<Rightarrow> byte option list" where
  "script_of bss = concat (map (\<lambda>bad. bad @ [Some 0x06]) bss)"

fun acked_run :: "int \<Rightarrow> bytes \<Rightarrow> nat \<Rightarrow> byte option list list \<Rightarrow> event list" where
  "acked_run pn data off [] = []"
| "acked_run pn data off (bad # bss) =
     concat (map (attempt pn (chunk_at data off)) bad) @ attempt pn (chunk_at data off) (Some 0x06)
       @ acked_run (pn + 1) data (off + 128) bss"

text \<open>The handshake: bytes other than Nak that are read and ignored, then the Nak.\<close>

definition handshake :: "bytes \<Rightarrow> event list" where
  "handshake junk = map (\<lambda>b. Read [b]) junk @ [Read [0x15]]"

text \<open>
  The rule for sequence numbers, as a property of a trace.  A data packet is a written
  block that starts with SOH.
  \<open>seq_discipline q\<close> holds of a trace when every data packet carries the expected
  sequence byte, which starts at \<open>q\<close>, goes up by one (in 8 bits, so 255 is followed by 0
  and 0 by 1) when the response read after the packet is Ack, and stays for any other response.
\<close>

definition is_packet :: "bytes \<Rightarrow> bool" where
  "is_packet p = (take 1 p = [0x01])"


text \<open>
  The payloads (bytes 3 to 130) of the data packets that were acknowledged: those whose
  write is followed by the read of an Ack.
\<close>

fun acked_payloads :: "event list \<Rightarrow> bytes list" where
  "acked_payloads (Write p # Read r # T) =
     (if is_packet p \<and> r = [0x06] then [take 128 (drop 3 p)] else []) @ acked_payloads T"
| "acked_payloads (e # T) = acked_payloads T"
| "acked_payloads [] = []"

text \<open>Chunking as the specification has it: pieces of 128 bytes, the last one shorter.\<close>

function chunks_of :: "bytes \<Rightarrow> bytes list" where
  "chunks_of data = (if data = [] then [] else take 128 data # chunks_of (drop 128 data))"
  by pat_completeness auto
termination
  by (relation "measure length") auto

declare chunks_of.simps [simp del]

fun is_read :: "event \<Rightarrow> bool" where
  "is_read (Read r) = True"
| "is_read e = False"


section \<open>Packet layout\<close>

lemma and_255_range: "0 \<le> (k::int) AND 0xFF \<and> k AND 0xFF < 256"
proof -
  have "k AND 0xFF = k mod 2 ^ 8"
    using take_bit_eq_mask [of 8 k] by (simp add: take_bit_eq_mod mask_eq_exp_minus_1)
  then show ?thesis by simp
qed

lemma build_packet_header_in_range:
  "py_bytes [SOH, pnum AND 0xFF, (NOT pnum) AND 0xFF] =
     Some (map word_of_int [SOH, pnum AND 0xFF, (NOT pnum) AND 0xFF])"
  "py_bytes [calculate_checksum d] = Some (map word_of_int [calculate_checksum d])"
  using and_255_range [of pnum] and_255_range [of "NOT pnum"]
    and_255_range [of "sum_list (map uint d)"]
  by (simp_all add: py_bytes_def SOH_def calculate_checksum_def)

lemma and_255_mod: "(k::int) AND 0xFF = k mod 256"
  using take_bit_eq_mask [of 8 k] by (simp add: take_bit_eq_mod mask_eq_exp_minus_1)

lemma uint_and_255: "uint (word_of_int (k AND 0xFF) :: byte) = k AND 0xFF"
  by (simp add: and_255_mod uint_word_of_int)

lemma not_and_255: "(NOT n) AND 0xFF = (255 - n) AND (0xFF::int)"
proof -
  have "255 - n = (- n - 1) + 256" by simp
  then have "(255 - n) mod 256 = (- n - 1) mod 256"
    by (metis mod_add_self2)
  then show ?thesis by (simp add: and_255_mod not_int_def)
qed

lemma length_pad128: "length (pad128 d) = max 128 (length d)"
  by (auto simp: pad128_def)

lemma length_build_packet: "length (build_packet n d) = 4 + max 128 (length d)"
  by (simp add: build_packet_def Let_def length_pad128)

lemma build_packet_eq:
  "build_packet n d =
     [word_of_int SOH, word_of_int (n AND 0xFF), word_of_int (NOT n AND 0xFF)]
       @ pad128 d @ [word_of_int (calculate_checksum (pad128 d))]"
  by (simp add: build_packet_def Let_def)

lemma send_packet_trace:
  "\<exists>r. trace (ser (snd (send_packet s d))) =
        trace (ser s) @ [Write (build_packet (packet_num s) d), Read r]"
  by (auto simp: send_packet_def Let_def ser_write_def ser_read1_def
      split: list.splits option.splits prod.splits)

lemma build_packet_fields:
  assumes "length d \<le> 128"
  shows "build_packet n d ! 0 = 1"
    and "uint (build_packet n d ! 1) = n AND 0xFF"
    and "uint (build_packet n d ! 2) = (255 - n) AND 0xFF"
    and "take 128 (drop 3 (build_packet n d)) = d @ replicate (128 - length d) 0"
    and "uint (build_packet n d ! 131) =
           sum_list (map uint (take 128 (drop 3 (build_packet n d)))) AND 0xFF"
proof -
  have l: "length (pad128 d) = 128" using assms by (simp add: length_pad128)
  show "build_packet n d ! 0 = 1" by (simp add: build_packet_eq SOH_def)
  show "uint (build_packet n d ! 1) = n AND 0xFF" by (simp add: build_packet_eq uint_and_255)
  show "uint (build_packet n d ! 2) = (255 - n) AND 0xFF"
    by (simp add: build_packet_eq uint_and_255 not_and_255)
  show t: "take 128 (drop 3 (build_packet n d)) = d @ replicate (128 - length d) 0"
    using l by (simp add: build_packet_eq) (simp add: pad128_def)
  have "build_packet n d ! 131 = word_of_int (calculate_checksum (pad128 d))"
    using l by (simp add: build_packet_eq nth_append)
  then show "uint (build_packet n d ! 131) =
      sum_list (map uint (take 128 (drop 3 (build_packet n d)))) AND 0xFF"
    unfolding t by (simp add: calculate_checksum_def uint_and_255 pad128_def)
qed

lemma simple_build_packet_agrees:
  assumes "0 \<le> n" "n < 256"
  shows "simple_build_packet n d = Some (build_packet n d)"
  using assms and_255_range [of "255 - n"] and_255_range [of "sum_list (map uint (pad128 d))"]
  apply (simp add: simple_build_packet_def Let_def py_bytes_def SOH_def build_packet_eq
      not_and_255 calculate_checksum_def)
  apply (auto simp: pad128_def and_255_mod)
  done

section \<open>The retry loop under a scripted peer\<close>

lemma uint_is_ACK: "(uint (b::byte) = 6) = (b = 6)"
proof -
  have "uint (6::byte) = 6" by simp
  then show ?thesis by (metis word_uint_eq_iff)
qed

lemma retry_loop_done: "\<not> r < m \<Longrightarrow> retry_loop m c r off s = (r, off, s)"
  by (subst retry_loop.simps) simp

lemma retry_loop_step:
  "r < m \<Longrightarrow> retry_loop m c r off s =
     (case send_packet s c of
        (True, s') \<Rightarrow> (r, off + length c, s')
      | (False, s') \<Rightarrow> retry_loop m c (r + 1) off s')"
  by (subst retry_loop.simps) simp

lemma send_packet_cons:
  assumes "rx (ser s) = r # rest"
  shows "fst (send_packet s c) = (r = Some 6)"
    and "rx (ser (snd (send_packet s c))) = rest"
    and "trace (ser (snd (send_packet s c))) = trace (ser s) @ attempt (packet_num s) c r"
    and "packet_num (snd (send_packet s c)) = (if r = Some 6 then packet_num s + 1 else packet_num s)"
  using assms
  by (auto simp: send_packet_def Let_def ser_write_def ser_read1_def uint_is_ACK ACK_def resp_def attempt_def
      split: list.splits option.splits prod.splits)

lemma send_packet_nil:
  assumes "rx (ser s) = []"
  shows "fst (send_packet s c) = False"
    and "rx (ser (snd (send_packet s c))) = []"
    and "trace (ser (snd (send_packet s c))) = trace (ser s) @ attempt (packet_num s) c None"
    and "packet_num (snd (send_packet s c)) = packet_num s"
  using assms
  by (auto simp: send_packet_def Let_def ser_write_def ser_read1_def uint_is_ACK ACK_def resp_def attempt_def
      split: list.splits option.splits prod.splits)

lemma retry_loop_ok:
  assumes "rx (ser s) = bad @ Some 6 # rest"
    and "list_all (\<lambda>r. r \<noteq> Some 6) bad"
    and "r + int (length bad) < m"
    and "retry_loop m c r off s = (r', off', s')"
  shows "r' = r + int (length bad) \<and> off' = off + length c \<and> rx (ser s') = rest
       \<and> packet_num s' = packet_num s + 1
       \<and> trace (ser s') = trace (ser s) @ concat (map (attempt (packet_num s) c) bad)
            @ attempt (packet_num s) c (Some 6)"
  using assms
proof (induction bad arbitrary: r s)
  case Nil
  then have rm: "r < m" by simp
  obtain ok s1 where sp: "send_packet s c = (ok, s1)" by (cases "send_packet s c")
  from Nil(1) have rxs: "rx (ser s) = Some 6 # rest" by simp
  from send_packet_cons [OF rxs, of c] sp
  have "ok" "rx (ser s1) = rest" "packet_num s1 = packet_num s + 1"
    "trace (ser s1) = trace (ser s) @ attempt (packet_num s) c (Some 6)" by simp_all
  with Nil(4) rm sp show ?case by (simp add: retry_loop_step)
next
  case (Cons b bad)
  then have rm: "r < m" by simp
  obtain ok s1 where sp: "send_packet s c = (ok, s1)" by (cases "send_packet s c")
  from Cons.prems(1) have rxs: "rx (ser s) = b # (bad @ Some 6 # rest)" by simp
  from Cons.prems(2) have b: "b \<noteq> Some 6" by simp
  from send_packet_cons [OF rxs, of c] sp b
  have s1: "\<not> ok" "rx (ser s1) = bad @ Some 6 # rest" "packet_num s1 = packet_num s"
    "trace (ser s1) = trace (ser s) @ attempt (packet_num s) c b" by simp_all
  with Cons.prems(4) rm sp have rl: "retry_loop m c (r + 1) off s1 = (r', off', s')"
    by (simp add: retry_loop_step)
  from Cons.prems(2,3) have "list_all (\<lambda>r. r \<noteq> Some 6) bad" "r + 1 + int (length bad) < m"
    by simp_all
  from Cons.IH [OF s1(2) this rl] s1 show ?case by simp
qed

lemma retry_loop_fail:
  assumes "rx (ser s) = bad @ rest"
    and "list_all (\<lambda>r. r \<noteq> Some 6) bad"
    and "int (length bad) = m - r" 
    and "retry_loop m c r off s = (r', off', s')"
  shows "r' = m \<and> off' = off \<and> rx (ser s') = rest
       \<and> packet_num s' = packet_num s
       \<and> trace (ser s') = trace (ser s) @ concat (map (attempt (packet_num s) c) bad)"
  using assms
proof (induction bad arbitrary: r s)
  case Nil
  from Nil.prems(3) have rm: "r = m" by simp
  then have "retry_loop m c r off s = (r, off, s)"
    by (simp add: retry_loop_done)
  with Nil.prems(1,4) rm show ?case by simp
next
  case (Cons b bad)
  then have rm: "r < m" by simp
  obtain ok s1 where sp: "send_packet s c = (ok, s1)" by (cases "send_packet s c")
  from Cons.prems(1) have rxs: "rx (ser s) = b # (bad @ rest)" by simp
  from Cons.prems(2) have b: "b \<noteq> Some 6" by simp
  from send_packet_cons [OF rxs, of c] sp b
  have s1: "\<not> ok" "rx (ser s1) = bad @ rest" "packet_num s1 = packet_num s"
    "trace (ser s1) = trace (ser s) @ attempt (packet_num s) c b" by simp_all
  with Cons.prems(4) rm sp have rl: "retry_loop m c (r + 1) off s1 = (r', off', s')"
    by (simp add: retry_loop_step)
  from Cons.prems(2,3) have "list_all (\<lambda>r. r \<noteq> Some 6) bad" "int (length bad) = m - (r + 1)"
    by simp_all
  from Cons.IH [OF s1(2) this rl] s1 show ?case by simp
qed

lemma send_chunks_done: "\<not> off < length data \<Longrightarrow> send_chunks m data off s = (True, s)"
  by (subst send_chunks.simps) simp

lemma send_chunks_step:
  "off < length data \<Longrightarrow> send_chunks m data off s =
     (case retry_loop m (take 128 (drop off data)) 0 off s of
        (retries, off', s') \<Rightarrow>
          if retries \<ge> m then (False, s') else send_chunks m data off' s')"
  by (subst send_chunks.simps) (simp add: Let_def)

lemma send_chunks_prefix:
  assumes "rx (ser s) = script_of bss @ rest"
    and "list_all (bad_ok m) bss"
    and "off + 128 * length bss < length data + 128"
  shows "\<exists>s1. send_chunks m data off s =
              send_chunks m data (min (length data) (off + 128 * length bss)) s1
         \<and> rx (ser s1) = rest
         \<and> packet_num s1 = packet_num s + int (length bss)
         \<and> trace (ser s1) = trace (ser s) @ acked_run (packet_num s) data off bss"
  using assms
proof (induction bss arbitrary: off s)
  case Nil
  have "min (length data) off = off \<or> \<not> off < length data" by auto
  then have "send_chunks m data off s = send_chunks m data (min (length data) off) s"
    by (auto simp: send_chunks_done)
  with Nil show ?case by (auto simp: script_of_def)
next
  case (Cons bad bss)
  let ?c = "take 128 (drop off data)"
  from Cons.prems(3) have off: "off < length data" by simp
  obtain r' off' s' where rl: "retry_loop m ?c 0 off s = (r', off', s')"
    by (cases "retry_loop m ?c 0 off s")
  from Cons.prems(1) have rxs: "rx (ser s) = bad @ Some 6 # (script_of bss @ rest)"
    by (simp add: script_of_def)
  from Cons.prems(2) have bss: "list_all (bad_ok m) bss" and "bad_ok m bad" by simp_all
  then have bad: "list_all (\<lambda>r. r \<noteq> Some 6) bad" "0 + int (length bad) < m"
    by (simp_all add: bad_ok_def)
  from retry_loop_ok [OF rxs bad rl]
  have r: "r' < m" "off' = off + length ?c" "rx (ser s') = script_of bss @ rest"
      "packet_num s' = packet_num s + 1"
      "trace (ser s') = trace (ser s) @ concat (map (attempt (packet_num s) ?c) bad)
            @ attempt (packet_num s) ?c (Some 6)"
    using bad(2) by simp_all
  from off rl r(1) have step: "send_chunks m data off s = send_chunks m data off' s'"
    by (simp add: send_chunks_step)
  show ?case
  proof (cases bss)
    case Nil
    have "send_chunks m data off' s' = send_chunks m data (min (length data) (off + 128)) s'"
    proof (cases "off' < length data")
      case True
      with off have "min (length data) (off + 128) = off'" unfolding r(2) by auto
      then show ?thesis by simp
    next
      case False
      with off have "\<not> min (length data) (off + 128) < length data" unfolding r(2) by auto
      then have "send_chunks m data (min (length data) (off + 128)) s' = (True, s')"
        by (rule send_chunks_done)
      moreover from False have "send_chunks m data off' s' = (True, s')"
        by (rule send_chunks_done)
      ultimately show ?thesis by simp
    qed
    with step r Nil show ?thesis by (auto simp: script_of_def chunk_at_def)
  next
    case (Cons b bs)
    with Cons.prems(3) have "off + 128 < length data" by simp
    then have o': "off' = off + 128" unfolding r(2) by simp
    from Cons.prems(3) have "off' + 128 * length bss < length data + 128" unfolding o' by simp
    from Cons.IH [OF r(3) bss this] obtain s1 where
      "send_chunks m data off' s' = send_chunks m data (min (length data) (off' + 128 * length bss)) s1"
      "rx (ser s1) = rest" "packet_num s1 = packet_num s' + int (length bss)"
      "trace (ser s1) = trace (ser s') @ acked_run (packet_num s') data off' bss" by blast
    with step r o' show ?thesis by (auto simp: chunk_at_def add.assoc)
  qed
qed

lemma wait_for_nak_step:
  "wait_for_nak p =
     (if in_waiting p > 0 then
        (let (ch, p') = ser_read1 p
         in if uint (ch ! 0) = NAK then (True, p') else wait_for_nak p')
      else (False, p))"
  by (subst wait_for_nak.simps) simp

lemma uint_is_NAK: "(uint (b::byte) = 21) = (b = 21)"
proof -
  have "uint (21::byte) = 21" by simp
  then show ?thesis by (metis word_uint_eq_iff)
qed

lemma wait_for_nak_ok:
  assumes "rx p = map Some junk @ Some 0x15 # rest"
    and "list_all (\<lambda>b. b \<noteq> 0x15) junk"
  shows "fst (wait_for_nak p) \<and> rx (snd (wait_for_nak p)) = rest
       \<and> trace (snd (wait_for_nak p)) = trace p @ map (\<lambda>b. Read [b]) junk @ [Read [0x15]]"
  using assms
proof (induction junk arbitrary: p)
  case Nil
  then show ?case
    by (subst (1 2 3) wait_for_nak_step)
       (simp add: in_waiting_def ser_read1_def NAK_def)
next
  case (Cons b junk)
  let ?p' = "snd (ser_read1 p)"
  from Cons.prems have p': "rx ?p' = map Some junk @ Some 0x15 # rest"
    "trace ?p' = trace p @ [Read [b]]" "fst (ser_read1 p) = [b]" "in_waiting p > 0"
    by (simp_all add: ser_read1_def in_waiting_def)
  from Cons.prems(2) have b: "b \<noteq> 0x15" and j: "list_all (\<lambda>b. b \<noteq> 0x15) junk" by simp_all
  from p'(3,4) b have "wait_for_nak p = wait_for_nak ?p'"
    by (subst wait_for_nak_step) (simp add: case_prod_unfold NAK_def uint_is_NAK)
  with Cons.IH [OF p'(1) j] p'(2) show ?case by simp
qed

lemma send_file_unfold:
  assumes "fst (wait_for_nak (ser s))"
    and "send_chunks m data 0 (s\<lparr>ser := snd (wait_for_nak (ser s))\<rparr>) = (ok, s1)"
  shows "send_file s data m =
     (if ok then
        (let p1 = ser_write (ser s1) (map word_of_int [EOT]);
             (response, p2) = ser_read1 p1
         in if length response > 0 \<and> uint (response ! 0) = ACK
            then (True, s1\<lparr>ser := p2\<rparr>)
            else (False, s1\<lparr>ser := p2\<rparr>))
      else (False, s1))"
  using assms by (cases "wait_for_nak (ser s)") (auto simp: send_file_def)

lemma send_file_all_acked:
  assumes "rx (ser s) = map Some junk @ Some 0x15 # script_of bss @ tail"
    and "list_all (\<lambda>b. b \<noteq> 0x15) junk"
    and "list_all (bad_ok m) bss"
    and "length bss = (length data + 127) div 128"
  shows "fst (send_file s data m) = (\<exists>rest. tail = Some 0x06 # rest)
       \<and> rx (ser (snd (send_file s data m))) = tl tail
       \<and> trace (ser (snd (send_file s data m))) =
           trace (ser s) @ handshake junk @ acked_run (packet_num s) data 0 bss
             @ [Write [0x04], Read (case tail of [] \<Rightarrow> [] | e # rest \<Rightarrow> resp e)]"
proof -
  let ?p = "snd (wait_for_nak (ser s))"
  let ?s = "s\<lparr>ser := ?p\<rparr>"
  from wait_for_nak_ok [OF assms(1,2)]
  have w: "fst (wait_for_nak (ser s))" "rx ?p = script_of bss @ tail"
    "trace ?p = trace (ser s) @ handshake junk"
    by (simp_all add: handshake_def)
  from assms(4) have n: "0 + 128 * length bss < length data + 128"
    and e: "\<not> min (length data) (0 + 128 * length bss) < length data" by auto
  from w(2) have "rx (ser ?s) = script_of bss @ tail" by simp
  from send_chunks_prefix [OF this assms(3) n] obtain s1 where
    s1: "send_chunks m data 0 ?s = send_chunks m data (min (length data) (0 + 128 * length bss)) s1"
      "rx (ser s1) = tail"
      "trace (ser s1) = trace (ser ?s) @ acked_run (packet_num ?s) data 0 bss" by blast
  from e have "send_chunks m data (min (length data) (0 + 128 * length bss)) s1 = (True, s1)"
    by (rule send_chunks_done)
  with s1(1) have "send_chunks m data 0 ?s = (True, s1)" by simp
  from send_file_unfold [OF w(1) this] s1(2,3) w(3) show ?thesis
    by (auto simp: ser_write_def ser_read1_def EOT_def ACK_def Let_def resp_def uint_is_ACK
        split: list.splits option.splits)
qed

lemma send_file_retries_exhausted:
  assumes "rx (ser s) = map Some junk @ Some 0x15 # script_of bss @ bad @ rest"
    and "list_all (\<lambda>b. b \<noteq> 0x15) junk"
    and "list_all (bad_ok m) bss"
    and "128 * length bss < length data"
    and "list_all (\<lambda>r. r \<noteq> Some 6) bad"
    and "int (length bad) = m"
  shows "\<not> fst (send_file s data m)
       \<and> rx (ser (snd (send_file s data m))) = rest
       \<and> trace (ser (snd (send_file s data m))) =
           trace (ser s) @ handshake junk @ acked_run (packet_num s) data 0 bss
             @ concat (map (attempt (packet_num s + int (length bss)) (chunk_at data (128 * length bss))) bad)"
proof -
  let ?p = "snd (wait_for_nak (ser s))"
  let ?s = "s\<lparr>ser := ?p\<rparr>"
  let ?off = "128 * length bss"
  from assms(1) have "rx (ser s) = map Some junk @ Some 0x15 # script_of bss @ (bad @ rest)" by simp
  from wait_for_nak_ok [OF this assms(2)]
  have w: "fst (wait_for_nak (ser s))" "rx ?p = script_of bss @ (bad @ rest)"
    "trace ?p = trace (ser s) @ handshake junk"
    by (simp_all add: handshake_def)
  from assms(4) have n: "0 + 128 * length bss < length data + 128"
    and e: "min (length data) (0 + 128 * length bss) = ?off" by auto
  from w(2) have "rx (ser ?s) = script_of bss @ (bad @ rest)" by simp
  from send_chunks_prefix [OF this assms(3) n] obtain s1 where
    s1: "send_chunks m data 0 ?s = send_chunks m data (min (length data) (0 + 128 * length bss)) s1"
      "rx (ser s1) = bad @ rest"
      "packet_num s1 = packet_num ?s + int (length bss)"
      "trace (ser s1) = trace (ser ?s) @ acked_run (packet_num ?s) data 0 bss" by blast
  obtain r' off' s' where rl: "retry_loop m (take 128 (drop ?off data)) 0 ?off s1 = (r', off', s')"
    by (cases "retry_loop m (take 128 (drop ?off data)) 0 ?off s1")
  from assms(6) have "int (length bad) = m - 0" by simp
  from retry_loop_fail [OF s1(2) assms(5) this rl]
  have f: "r' = m" "rx (ser s') = rest"
    "trace (ser s') = trace (ser s1) @ concat (map (attempt (packet_num s1) (take 128 (drop ?off data))) bad)"
    by simp_all
  from assms(4) rl f(1) have "send_chunks m data ?off s1 = (False, s')"
    by (simp add: send_chunks_step)
  with s1(1) e have "send_chunks m data 0 ?s = (False, s')" by simp
  from send_file_unfold [OF w(1) this] f s1(3,4) w(3) show ?thesis
    by (simp add: chunk_at_def)
qed

section \<open>The shape of every run\<close>

lemma retry_loop_shape:
  assumes "retry_loop m c r off s = (r', off', s')"
  shows "\<exists>bad. list_all (\<lambda>x. x \<noteq> Some 0x06) bad
      \<and> trace (ser s') = trace (ser s) @ concat (map (attempt (packet_num s) c) bad)
           @ (if r' < m then attempt (packet_num s) c (Some 0x06) else [])
      \<and> packet_num s' = (if r' < m then packet_num s + 1 else packet_num s)
      \<and> (r' < m \<longrightarrow> off' = off + length c \<and> r' = r + int (length bad))
      \<and> (\<not> r' < m \<longrightarrow> int (length bad) = max 0 (m - r))"
  using assms
proof (induction m c r off s rule: retry_loop.induct)
  case (1 m c r off s)
  show ?case
  proof (cases "r < m")
    case False
    with "1.prems" have "r' = r" "s' = s" by (simp_all add: retry_loop_done)
    with False show ?thesis by (intro exI [of _ "[]"]) simp
  next
    case True
    obtain ok s1 where sp: "send_packet s c = (ok, s1)" by (cases "send_packet s c")
    define x where "x = (case rx (ser s) of [] \<Rightarrow> None | e # _ \<Rightarrow> e)"
    have f: "ok = (x = Some 0x06)"
      "trace (ser s1) = trace (ser s) @ attempt (packet_num s) c x"
      "packet_num s1 = (if x = Some 0x06 then packet_num s + 1 else packet_num s)"
    proof -
      show "ok = (x = Some 0x06)" "trace (ser s1) = trace (ser s) @ attempt (packet_num s) c x"
        "packet_num s1 = (if x = Some 0x06 then packet_num s + 1 else packet_num s)"
        using sp send_packet_cons [of s _ _ c] send_packet_nil [of s c]
        by (cases "rx (ser s)"; simp add: x_def)+
    qed
    show ?thesis
    proof (cases ok)
      case True
      with \<open>r < m\<close> sp "1.prems" have "r' = r" "off' = off + length c" "s' = s1"
        by (simp_all add: retry_loop_step)
      with True f \<open>r < m\<close> show ?thesis by (intro exI [of _ "[]"]) simp
    next
      case False
      with \<open>r < m\<close> sp "1.prems" have rl: "retry_loop m c (r + 1) off s1 = (r', off', s')"
        by (simp add: retry_loop_step)
      from "1.IH" [OF \<open>r < m\<close> sp [symmetric] _ rl] False
      obtain bad where b: "list_all (\<lambda>x. x \<noteq> Some 0x06) bad"
        "trace (ser s') = trace (ser s1) @ concat (map (attempt (packet_num s1) c) bad)
           @ (if r' < m then attempt (packet_num s1) c (Some 0x06) else [])"
        "packet_num s' = (if r' < m then packet_num s1 + 1 else packet_num s1)"
        "r' < m \<longrightarrow> off' = off + length c \<and> r' = r + 1 + int (length bad)"
        "\<not> r' < m \<longrightarrow> int (length bad) = max 0 (m - (r + 1))"
        by auto
      from False f have x: "x \<noteq> Some 0x06" "packet_num s1 = packet_num s" by simp_all
      with b f(2) \<open>r < m\<close> show ?thesis by (intro exI [of _ "x # bad"]) auto
    qed
  qed
qed

lemma div_128_step: "(k + 128 + 127) div 128 = Suc ((k + 127) div (128::nat))"
proof -
  have "k + 128 + 127 = (k + 127) + 1 * 128" by simp
  then have "(k + 128 + 127) div 128 = (k + 127) div 128 + 1"
    by (simp only: div_mult_self3)
  then show ?thesis by simp
qed

lemma chunk_count_step:
  "off + 128 \<le> (L::nat) \<Longrightarrow> (L - off + 127) div 128 = Suc ((L - (off + 128) + 127) div 128)"
proof -
  assume "off + 128 \<le> L"
  define k where "k = L - (off + 128)"
  with \<open>off + 128 \<le> L\<close> have "L = k + (off + 128)" by simp
  then have "L - off = k + 128" "L - (off + 128) = k" by simp_all
  then show ?thesis using div_128_step [of k] by simp
qed

lemma chunk_count_last:
  "off < (L::nat) \<Longrightarrow> \<not> off + 128 \<le> L \<Longrightarrow> (L - off + 127) div 128 = Suc 0"
proof -
  assume a: "off < L" "\<not> off + 128 \<le> L"
  define j where "j = L - off - 1"
  from a have j: "L - off + 127 = 128 + j" "j < 127" by (simp_all add: j_def)
  have "(128 + j) div 128 = Suc 0" using j(2) by simp
  with j(1) show ?thesis by simp
qed

lemma chunk_count_zero: "((L::nat) - off + 127) div 128 = 0 \<Longrightarrow> L \<le> off"
proof -
  assume "(L - off + 127) div 128 = 0"
  then have "L - off + 127 < 128" by (simp only: div_eq_0_iff) simp
  then show ?thesis by simp
qed

lemma send_chunks_shape:
  assumes "send_chunks m data off s = (ok, s')"
  shows "\<exists>bss bad. list_all (bad_ok m) bss \<and> list_all (\<lambda>x. x \<noteq> Some 0x06) bad
      \<and> trace (ser s') = trace (ser s) @ acked_run (packet_num s) data off bss
           @ concat (map (attempt (packet_num s + int (length bss))
                            (chunk_at data (off + 128 * length bss))) bad)
      \<and> (bss = [] \<or> off + 128 * length bss < length data + 128)
      \<and> (if ok then bad = [] \<and> length bss = (length data - off + 127) div 128
          else int (length bad) = max 0 m \<and> off + 128 * length bss < length data)"
  using assms
proof (induction m data off s arbitrary: ok s' rule: send_chunks.induct)
  case (1 m data off s)
  show ?case
  proof (cases "off < length data")
    case False
    with "1.prems" have "ok" "s' = s" by (simp_all add: send_chunks_done)
    with False show ?thesis by (intro exI [of _ "[]"]) simp
  next
    case True
    let ?c = "take 128 (drop off data)"
    obtain r1 off1 s1 where rl: "retry_loop m ?c 0 off s = (r1, off1, s1)"
      by (cases "retry_loop m ?c 0 off s")
    from retry_loop_shape [OF rl] obtain bad where
      b: "list_all (\<lambda>x. x \<noteq> Some 0x06) bad"
        "trace (ser s1) = trace (ser s) @ concat (map (attempt (packet_num s) ?c) bad)
           @ (if r1 < m then attempt (packet_num s) ?c (Some 0x06) else [])"
        "packet_num s1 = (if r1 < m then packet_num s + 1 else packet_num s)"
        "r1 < m \<longrightarrow> off1 = off + length ?c \<and> r1 = 0 + int (length bad)"
        "\<not> r1 < m \<longrightarrow> int (length bad) = max 0 (m - 0)"
      by blast
    show ?thesis
    proof (cases "r1 < m")
      case False
      with True rl "1.prems" have "\<not> ok" "s' = s1" by (simp_all add: send_chunks_step)
      with False b True show ?thesis
        by (intro exI [of _ "[]"] exI [of _ bad]) (simp add: chunk_at_def)
    next
      case r1: True
      with True rl "1.prems" have sc: "send_chunks m data off1 s1 = (ok, s')"
        by (simp add: send_chunks_step)
      from r1 have "\<not> m \<le> r1" by simp
      from "1.IH" [OF True refl rl [symmetric] refl this sc]
      obtain bss bad' where
        i: "list_all (bad_ok m) bss" "list_all (\<lambda>x. x \<noteq> Some 0x06) bad'"
          "trace (ser s') = trace (ser s1) @ acked_run (packet_num s1) data off1 bss
             @ concat (map (attempt (packet_num s1 + int (length bss))
                              (chunk_at data (off1 + 128 * length bss))) bad')"
          "bss = [] \<or> off1 + 128 * length bss < length data + 128"
          "if ok then bad' = [] \<and> length bss = (length data - off1 + 127) div 128
           else int (length bad') = max 0 m \<and> off1 + 128 * length bss < length data"
        by blast
      from r1 b have o1: "off1 = off + length ?c" and pn: "packet_num s1 = packet_num s + 1"
        and bo: "bad_ok m bad" by (simp_all add: bad_ok_def)
      have off1: "(off1 = off + 128 \<and> off + 128 \<le> length data) \<or> (off1 = length data \<and> bss = [] \<and> ok \<and> bad' = [])"
      proof (cases "off + 128 \<le> length data")
        case True
        then show ?thesis unfolding o1 by simp
      next
        case False
        with \<open>off < length data\<close> have "off1 = length data" unfolding o1 by simp
        with i(4,5) show ?thesis by (auto split: if_splits)
      qed
      then show ?thesis
      proof
        assume e': "off1 = off + 128 \<and> off + 128 \<le> length data"
        then have e: "off1 = off + 128" ..
        have pn_eq: "packet_num s1 + int (length bss) = packet_num s + int (length (bad # bss))"
          using pn by simp
        have off_eq: "off1 + 128 * length bss = off + 128 * length (bad # bss)"
          using e by simp
        have c1: "list_all (bad_ok m) (bad # bss)" using bo i(1) by simp
        have c3: "trace (ser s') = trace (ser s) @ acked_run (packet_num s) data off (bad # bss)
           @ concat (map (attempt (packet_num s + int (length (bad # bss)))
                            (chunk_at data (off + 128 * length (bad # bss)))) bad')"
          using i(3) [unfolded pn_eq off_eq] b(2) r1 pn e by (simp add: chunk_at_def)
        have c4: "bad # bss = [] \<or> off + 128 * length (bad # bss) < length data + 128"
          using e i(4) True by auto
        have c5: "if ok then bad' = [] \<and> length (bad # bss) = (length data - off + 127) div 128
           else int (length bad') = max 0 m \<and> off + 128 * length (bad # bss) < length data"
          using e' i(5) chunk_count_step [of off "length data"] by (auto split: if_splits)
        from c1 i(2) c3 c4 c5 show ?thesis by blast
      next
        assume e: "off1 = length data \<and> bss = [] \<and> ok \<and> bad' = []"
        with o1 True have l: "length [bad] = (length data - off + 127) div 128" by auto
        have c1: "list_all (bad_ok m) [bad]" using bo by simp
        have c2: "list_all (\<lambda>x. x \<noteq> Some 0x06) ([] :: byte option list)" by simp
        have c3: "trace (ser s') = trace (ser s) @ acked_run (packet_num s) data off [bad]
           @ concat (map (attempt (packet_num s + int (length [bad]))
                            (chunk_at data (off + 128 * length [bad]))) [])"
          using e i(3) b(2) r1 by (simp add: chunk_at_def)
        have c4: "[bad] = [] \<or> off + 128 * length [bad] < length data + 128"
          using True by simp
        have c5: "if ok then [] = ([] :: byte option list) \<and> length [bad] = (length data - off + 127) div 128
           else int (length ([] :: byte option list)) = max 0 m \<and> off + 128 * length [bad] < length data"
          using e l by simp
        from c1 c2 c3 c4 c5 show ?thesis by blast
      qed
    qed
  qed
qed

lemma wait_for_nak_shape:
  "\<exists>W. trace (snd (wait_for_nak p)) = trace p @ W \<and> list_all is_read W"
proof (induction p rule: wait_for_nak.induct)
  case (1 p)
  show ?case
  proof (cases "in_waiting p > 0")
    case False
    then have "wait_for_nak p = (False, p)" by (subst wait_for_nak_step) simp
    then show ?thesis by simp
  next
    case True
    obtain ch p' where r: "ser_read1 p = (ch, p')" by (cases "ser_read1 p")
    then have t: "trace p' = trace p @ [Read ch]"
      by (auto simp: ser_read1_def split: list.splits option.splits)
    show ?thesis
    proof (cases "uint (ch ! 0) = NAK")
      case n: True
      with True r have "wait_for_nak p = (True, p')" by (subst wait_for_nak_step) simp
      with t show ?thesis by simp
    next
      case n: False
      with True r have w: "wait_for_nak p = wait_for_nak p'" by (subst wait_for_nak_step) simp
      from "1.IH" [OF True r [symmetric] refl n] obtain W where
        "trace (snd (wait_for_nak p')) = trace p' @ W" "list_all is_read W" by blast
      with t w show ?thesis by (intro exI [of _ "Read ch # W"]) simp
    qed
  qed
qed

lemma send_file_shape:
  "\<exists>W bss bad E. list_all is_read W \<and> list_all (bad_ok m) bss
      \<and> list_all (\<lambda>x. x \<noteq> Some 0x06) bad
      \<and> trace (ser (snd (send_file s data m))) =
          trace (ser s) @ W @ acked_run (packet_num s) data 0 bss
            @ concat (map (attempt (packet_num s + int (length bss))
                             (chunk_at data (128 * length bss))) bad) @ E
      \<and> (E = [] \<or> (\<exists>r. E = [Write [0x04], Read r]))
      \<and> (fst (send_file s data m) \<longrightarrow>
            bad = [] \<and> length bss = (length data + 127) div 128)"
proof -
  obtain W where W: "trace (snd (wait_for_nak (ser s))) = trace (ser s) @ W" "list_all is_read W"
    using wait_for_nak_shape [of "ser s"] by blast
  show ?thesis
  proof (cases "fst (wait_for_nak (ser s))")
    case False
    then have "send_file s data m = (False, s\<lparr>ser := snd (wait_for_nak (ser s))\<rparr>)"
      by (cases "wait_for_nak (ser s)") (simp add: send_file_def)
    with W show ?thesis
      by (intro exI [of _ W] exI [of _ "[]"]) simp
  next
    case True
    let ?s = "s\<lparr>ser := snd (wait_for_nak (ser s))\<rparr>"
    obtain ok s1 where sc: "send_chunks m data 0 ?s = (ok, s1)"
      by (cases "send_chunks m data 0 ?s")
    from send_chunks_shape [OF sc] obtain bss bad where
      c: "list_all (bad_ok m) bss" "list_all (\<lambda>x. x \<noteq> Some 0x06) bad"
        "trace (ser s1) = trace (ser ?s) @ acked_run (packet_num ?s) data 0 bss
           @ concat (map (attempt (packet_num ?s + int (length bss))
                            (chunk_at data (0 + 128 * length bss))) bad)"
        "if ok then bad = [] \<and> length bss = (length data - 0 + 127) div 128
          else int (length bad) = max 0 m \<and> 0 + 128 * length bss < length data"
      by blast
    have t1: "trace (ser s1) = trace (ser s) @ W @ acked_run (packet_num s) data 0 bss
           @ concat (map (attempt (packet_num s + int (length bss))
                            (chunk_at data (128 * length bss))) bad)"
      using c(3) W(1) by simp
    show ?thesis
    proof (cases ok)
      case False
      with send_file_unfold [OF True sc] have "send_file s data m = (False, s1)" by simp
      with t1 c W(2) show ?thesis
        by (intro exI [of _ W] exI [of _ bss] exI [of _ bad] exI [of _ "[]"]) simp
    next
      case ok: True
      define r where "r = fst (ser_read1 (ser_write (ser s1) (map word_of_int [EOT])))"
      have "trace (ser (snd (send_file s data m))) = trace (ser s1) @ [Write [0x04], Read r]"
        using send_file_unfold [OF True sc] ok
        by (auto simp: r_def Let_def case_prod_unfold ser_write_def ser_read1_def EOT_def
            split: list.splits option.splits)
      with t1 have "trace (ser (snd (send_file s data m))) =
          trace (ser s) @ W @ acked_run (packet_num s) data 0 bss
            @ concat (map (attempt (packet_num s + int (length bss))
                             (chunk_at data (128 * length bss))) bad) @ [Write [0x04], Read r]"
        by simp
      moreover from c(4) ok have "bad = [] \<and> length bss = (length data + 127) div 128" by simp
      ultimately show ?thesis using c(1,2) W(2)
        by (intro exI [of _ W] exI [of _ bss] exI [of _ bad] exI [of _ "[Write [0x04], Read r]"]) simp
    qed
  qed
qed

lemma is_packet_build_packet: "is_packet (build_packet pn c)"
  by (simp add: is_packet_def build_packet_eq SOH_def)

lemma not_is_packet_eot: "\<not> is_packet [0x04]"
  by (simp add: is_packet_def)



lemma build_packet_payload: "length c \<le> 128 \<Longrightarrow> take 128 (drop 3 (build_packet pn c)) = pad128 c"
  using build_packet_fields(4) [of c pn] by (simp add: pad128_def)

lemma resp_ack: "(resp x = [0x06]) = (x = Some 0x06)"
  by (cases x) (simp_all add: resp_def)







lemma chunks_of_Nil: "chunks_of [] = []"
  by (subst chunks_of.simps) simp

lemma chunks_of_step: "data \<noteq> [] \<Longrightarrow> chunks_of data = take 128 data # chunks_of (drop 128 data)"
  by (subst chunks_of.simps) simp

lemma concat_chunks_of: "concat (chunks_of data) = data"
proof (induction data rule: chunks_of.induct)
  case (1 data)
  show ?case
  proof (cases "data = []")
    case True
    then show ?thesis by (simp add: chunks_of_Nil)
  next
    case False
    with "1.IH" show ?thesis by (simp add: chunks_of_step)
  qed
qed

lemma length_chunks_of: "length (chunks_of data) = (length data + 127) div 128"
proof (induction data rule: chunks_of.induct)
  case (1 data)
  show ?case
  proof (cases "data = []")
    case True
    then show ?thesis by (simp add: chunks_of_Nil)
  next
    case False
    then have n: "0 < length data" by simp
    have "(length data + 127) div 128 = Suc ((length data - 128 + 127) div 128)"
    proof (cases "128 \<le> length data")
      case True
      with chunk_count_step [of 0 "length data"] show ?thesis by simp
    next
      case False
      with n chunk_count_last [of 0 "length data"] show ?thesis by simp
    qed
    with "1.IH" [OF False] False show ?thesis by (simp add: chunks_of_step)
  qed
qed

lemma nth_chunks_of:
  "i < length (chunks_of data) \<Longrightarrow> chunks_of data ! i = take 128 (drop (128 * i) data)"
proof (induction data arbitrary: i rule: chunks_of.induct)
  case (1 data)
  show ?case
  proof (cases "data = []")
    case True
    with "1.prems" show ?thesis by (simp add: chunks_of_Nil)
  next
    case False
    show ?thesis
    proof (cases i)
      case 0
      with False show ?thesis by (simp add: chunks_of_step)
    next
      case (Suc j)
      with "1.prems" False have "j < length (chunks_of (drop 128 data))"
        by (simp add: chunks_of_step)
      from "1.IH" [OF False this] Suc False show ?thesis
        by (simp add: chunks_of_step add.commute)
    qed
  qed
qed

lemma chunk_sizes:
  "list_all (\<lambda>c. 1 \<le> length c \<and> length c \<le> 128) (chunks_of data)"
proof (induction data rule: chunks_of.induct)
  case (1 data)
  show ?case
  proof (cases "data = []")
    case True
    then show ?thesis by (simp add: chunks_of_Nil)
  next
    case False
    then have "0 < length data" by simp
    with "1.IH" [OF False] False show ?thesis by (simp add: chunks_of_step Suc_le_eq)
  qed
qed

lemma ap_reads: "list_all is_read W \<Longrightarrow> acked_payloads (W @ K) = acked_payloads K"
proof (induction W)
  case Nil
  then show ?case by simp
next
  case (Cons e W)
  then show ?case by (cases e) simp_all
qed

lemma ap_attempt:
  "length c \<le> 128 \<Longrightarrow> acked_payloads (attempt pn c x @ K) =
     (if x = Some 0x06 then [pad128 c] else []) @ acked_payloads K"
  by (simp add: attempt_def is_packet_build_packet build_packet_payload resp_ack)

lemma ap_bad:
  "list_all (\<lambda>x. x \<noteq> Some 0x06) bad \<Longrightarrow> length c \<le> 128 \<Longrightarrow>
     acked_payloads (concat (map (attempt pn c) bad) @ K) = acked_payloads K"
  by (induction bad) (simp_all add: ap_attempt)

lemma length_chunk_at: "length (chunk_at data off) \<le> 128"
  by (simp add: chunk_at_def)

lemma ap_acked_run:
  "list_all (bad_ok m) bss \<Longrightarrow> length bss = (length data - off + 127) div 128 \<Longrightarrow>
     acked_payloads (acked_run pn data off bss @ K) =
     map pad128 (chunks_of (drop off data)) @ acked_payloads K"
proof (induction bss arbitrary: pn off)
  case Nil
  then have "(length data - off + 127) div 128 = 0" by simp
  then have "length data \<le> off" by (rule chunk_count_zero)
  then show ?case by (simp add: chunks_of_Nil)
next
  case (Cons bad bss)
  from Cons.prems(1) have bss: "list_all (bad_ok m) bss" and "bad_ok m bad" by simp_all
  then have b: "list_all (\<lambda>x. x \<noteq> Some 0x06) bad" by (simp add: bad_ok_def)
  from Cons.prems(2) have off: "off < length data" by (cases "off < length data") simp_all
  have l: "length bss = (length data - (off + 128) + 127) div 128"
  proof (cases "off + 128 \<le> length data")
    case True
    with Cons.prems(2) chunk_count_step [of off "length data"] show ?thesis by simp
  next
    case False
    with off Cons.prems(2) chunk_count_last [of off "length data"] show ?thesis by simp
  qed
  from off have ne: "drop off data \<noteq> []" by simp
  have c: "chunks_of (drop off data) = chunk_at data off # chunks_of (drop (off + 128) data)"
    using chunks_of_step [OF ne] by (simp add: chunk_at_def add.commute)
  have "acked_payloads (acked_run pn data off (bad # bss) @ K) =
        acked_payloads (concat (map (attempt pn (chunk_at data off)) bad)
          @ (attempt pn (chunk_at data off) (Some 0x06) @ (acked_run (pn + 1) data (off + 128) bss @ K)))"
    by simp
  also have "\<dots> = acked_payloads
      (attempt pn (chunk_at data off) (Some 0x06) @ (acked_run (pn + 1) data (off + 128) bss @ K))"
    by (rule ap_bad [OF b length_chunk_at])
  also have "\<dots> = [pad128 (chunk_at data off)] @ acked_payloads (acked_run (pn + 1) data (off + 128) bss @ K)"
    by (simp only: ap_attempt [OF length_chunk_at] refl if_True)
  also have "\<dots> = [pad128 (chunk_at data off)] @ (map pad128 (chunks_of (drop (off + 128) data)) @ acked_payloads K)"
    by (simp only: Cons.IH [OF bss l])
  finally show ?case by (simp add: c)
qed

lemma ap_tail:
  "E = [] \<or> (\<exists>r. E = [Write [0x04], Read r]) \<Longrightarrow> acked_payloads E = []"
  by (auto simp: not_is_packet_eot)

lemma acked_payloads_send_file:
  assumes "fst (send_file s data m)"
  shows "acked_payloads (drop (length (trace (ser s))) (trace (ser (snd (send_file s data m))))) =
           map pad128 (chunks_of data)"
proof -
  from send_file_shape [of m s data] assms obtain W bss E where
    h: "list_all is_read W" "list_all (bad_ok m) bss"
      "trace (ser (snd (send_file s data m))) =
          trace (ser s) @ W @ acked_run (packet_num s) data 0 bss @ E"
      "E = [] \<or> (\<exists>r. E = [Write [0x04], Read r])"
      "length bss = (length data - 0 + 127) div 128"
    by auto
  have "acked_payloads (W @ (acked_run (packet_num s) data 0 bss @ E)) =
        acked_payloads (acked_run (packet_num s) data 0 bss @ E)"
    by (rule ap_reads [OF h(1)])
  also have "\<dots> = map pad128 (chunks_of (drop 0 data)) @ acked_payloads E"
    by (rule ap_acked_run [OF h(2,5)])
  also have "\<dots> = map pad128 (chunks_of data)"
    using ap_tail [OF h(4)] by simp
  finally show ?thesis using h(3) by simp
qed



section \<open>Parsing the monitor's responses\<close>











section \<open>Claims\<close>

text \<open>
  C1.  For every packet counter \<open>n\<close> and every chunk of 1 to 128 bytes, \<open>send_packet\<close>
  of the loader writes one packet of exactly 132 bytes and then reads the response: byte 0
  is \<open>0x01\<close>, byte 1 is \<open>n & 0xFF\<close>, byte 2 is \<open>(255 - n) & 0xFF\<close>, bytes 3 to 130 are
  the chunk padded with zero bytes to 128, and byte 131 is the sum of those 128 bytes
  \<open>& 0xFF\<close>.  The example sender \<open>simple_xmodem.py\<close> builds the same packet for every
  sequence byte \<open>0..255\<close>.
\<close>

theorem C1_packet_wire_format:
  assumes "1 \<le> length chunk" and "length chunk \<le> 128"
  shows "(\<exists>r. trace (ser (snd (send_packet s chunk))) =
            trace (ser s) @ [Write (build_packet (packet_num s) chunk), Read r])
       \<and> length (build_packet n chunk) = 132
       \<and> build_packet n chunk ! 0 = 0x01
       \<and> uint (build_packet n chunk ! 1) = n AND 0xFF
       \<and> uint (build_packet n chunk ! 2) = (255 - n) AND 0xFF
       \<and> take 128 (drop 3 (build_packet n chunk)) = chunk @ replicate (128 - length chunk) 0
       \<and> uint (build_packet n chunk ! 131) =
           sum_list (map uint (take 128 (drop 3 (build_packet n chunk)))) AND 0xFF
       \<and> (0 \<le> n \<and> n < 256 \<longrightarrow> simple_build_packet n chunk = Some (build_packet n chunk))"
  using assms send_packet_trace [of s chunk] build_packet_fields [of chunk n]
    simple_build_packet_agrees [of n chunk]
  by (simp add: length_build_packet)

theorem C1_packet_wire_format_witness:
  "length (build_packet 300 [0x41, 0x42]) = 132
     \<and> build_packet 300 [0x41, 0x42] ! 0 = 0x01
     \<and> uint (build_packet 300 [0x41, 0x42] ! 1) = 44
     \<and> uint (build_packet 300 [0x41, 0x42] ! 2) = 211
     \<and> take 128 (drop 3 (build_packet 300 [0x41, 0x42])) = [0x41, 0x42] @ replicate 126 0
     \<and> uint (build_packet 2 [0x41, 0x42] ! 131) = 131
     \<and> simple_build_packet 2 [0x41, 0x42] = Some (build_packet 2 [0x41, 0x42])"
  using C1_packet_wire_format [of "[0x41, 0x42]" "XModemSender_init \<lparr>rx = [], trace = []\<rparr>" 300]
    C1_packet_wire_format [of "[0x41, 0x42]" "XModemSender_init \<lparr>rx = [], trace = []\<rparr>" 2]
  by (simp add: sum_list_replicate)

text \<open>
  C2.  The peer sends the handshake Nak and answers each chunk with fewer than
  \<open>max_retries\<close> responses that are not Ack (so also with exactly \<open>max_retries - 1\<close> Naks)
  followed by an Ack.  If it does so for every chunk and acknowledges EOT, \<open>send_file\<close>
  returns \<open>True\<close>.  If instead, after some chunks were acknowledged, it answers the next
  chunk with \<open>max_retries\<close> Naks, \<open>send_file\<close> returns \<open>False\<close>; that chunk's packet has
  then been written exactly \<open>max_retries\<close> times and nothing is written after it, whatever
  the peer would send next.
\<close>

theorem C2_bounded_retries:
  assumes "rx (ser s) = map Some junk @ Some 0x15 # script_of bss @ tail"
    and "list_all (\<lambda>b. b \<noteq> 0x15) junk"
    and "list_all (bad_ok m) bss"
  shows "(length bss = (length data + 127) div 128 \<and> tail = Some 0x06 # rest \<longrightarrow>
            fst (send_file s data m)
          \<and> trace (ser (snd (send_file s data m))) =
              trace (ser s) @ handshake junk @ acked_run (packet_num s) data 0 bss
                @ [Write [0x04], Read [0x06]])
       \<and> (128 * length bss < length data \<and> tail = replicate (nat m) (Some 0x15) @ rest \<and> 0 \<le> m \<longrightarrow>
            \<not> fst (send_file s data m)
          \<and> rx (ser (snd (send_file s data m))) = rest
          \<and> trace (ser (snd (send_file s data m))) =
              trace (ser s) @ handshake junk @ acked_run (packet_num s) data 0 bss
                @ concat (replicate (nat m)
                    (attempt (packet_num s + int (length bss)) (chunk_at data (128 * length bss)) (Some 0x15))))"
proof (intro conjI impI)
  assume a: "length bss = (length data + 127) div 128 \<and> tail = Some 0x06 # rest"
  with assms(1) have "rx (ser s) = map Some junk @ Some 0x15 # script_of bss @ Some 0x06 # rest"
    by simp
  from send_file_all_acked [OF this assms(2,3)] a
  show "fst (send_file s data m)"
    and "trace (ser (snd (send_file s data m))) =
              trace (ser s) @ handshake junk @ acked_run (packet_num s) data 0 bss
                @ [Write [0x04], Read [0x06]]"
    by (simp_all add: resp_def)
next
  assume b: "128 * length bss < length data \<and> tail = replicate (nat m) (Some 0x15) @ rest \<and> 0 \<le> m"
  let ?bad = "replicate (nat m) (Some (0x15::byte))"
  from b assms(1) have 1: "rx (ser s) = map Some junk @ Some 0x15 # script_of bss @ ?bad @ rest"
    by simp
  have 2: "list_all (\<lambda>r. r \<noteq> Some 0x06) ?bad" by (simp add: list_all_iff)
  from b have 3: "int (length ?bad) = m" and 4: "128 * length bss < length data" by simp_all
  from send_file_retries_exhausted [OF 1 assms(2,3) 4 2 3]
  show "\<not> fst (send_file s data m)"
    and "rx (ser (snd (send_file s data m))) = rest"
    and "trace (ser (snd (send_file s data m))) =
              trace (ser s) @ handshake junk @ acked_run (packet_num s) data 0 bss
                @ concat (replicate (nat m)
                    (attempt (packet_num s + int (length bss)) (chunk_at data (128 * length bss)) (Some 0x15)))"
    by (simp_all add: map_replicate_const)
qed

theorem C2_bounded_retries_witness:
  "fst (send_file (XModemSender_init \<lparr>rx = [Some 0x15, Some 0x15, Some 0x15, Some 0x06, Some 0x06], trace = []\<rparr>) [0x41] 3)
   \<and> \<not> fst (send_file (XModemSender_init \<lparr>rx = [Some 0x15, Some 0x15, Some 0x15, Some 0x15, Some 0x06], trace = []\<rparr>) [0x41] 3)
   \<and> trace (ser (snd (send_file (XModemSender_init \<lparr>rx = [Some 0x15, Some 0x15, Some 0x15, Some 0x15, Some 0x06], trace = []\<rparr>) [0x41] 3))) =
       [Read [0x15], Write (build_packet 1 [0x41]), Read [0x15], Write (build_packet 1 [0x41]), Read [0x15],
        Write (build_packet 1 [0x41]), Read [0x15]]"
  using C2_bounded_retries [of "XModemSender_init \<lparr>rx = [Some 0x15, Some 0x15, Some 0x15, Some 0x06, Some 0x06], trace = []\<rparr>"
      "[]" "[[Some 0x15, Some 0x15]]" "[Some 0x06]" 3 "[0x41]" "[]"]
    C2_bounded_retries [of "XModemSender_init \<lparr>rx = [Some 0x15, Some 0x15, Some 0x15, Some 0x15, Some 0x06], trace = []\<rparr>"
      "[]" "[]" "[Some 0x15, Some 0x15, Some 0x15, Some 0x06]" 3 "[0x41]" "[Some 0x06]"]
  by (simp add: XModemSender_init_def script_of_def bad_ok_def handshake_def attempt_def resp_def
      chunk_at_def numeral_3_eq_3)

text \<open>
  C3, as stated, fails: the loader has no Cancel byte.  A peer that answers the first
  packet with \<open>0x18\<close> gets the same packet again, and the transfer goes on to succeed.
\<close>

theorem C3_cancel_is_resent_counterexample:
  "fst (send_file (XModemSender_init \<lparr>rx = [Some 0x15, Some 0x18, Some 0x06, Some 0x06], trace = []\<rparr>) [0x41] 10)
   \<and> trace (ser (snd (send_file (XModemSender_init \<lparr>rx = [Some 0x15, Some 0x18, Some 0x06, Some 0x06], trace = []\<rparr>) [0x41] 10))) =
       [Read [0x15], Write (build_packet 1 [0x41]), Read [0x18], Write (build_packet 1 [0x41]), Read [0x06],
        Write [0x04], Read [0x06]]"
  using send_file_all_acked [of "XModemSender_init \<lparr>rx = [Some 0x15, Some 0x18, Some 0x06, Some 0x06], trace = []\<rparr>"
      "[]" "[[Some 0x18]]" "[Some 0x06]" 10 "[0x41]"]
  by (simp add: XModemSender_init_def script_of_def bad_ok_def handshake_def attempt_def resp_def
      chunk_at_def)

text \<open>
  C3, amended.  A Cancel byte (\<open>0x18\<close>) received as the response to a packet is an
  unexpected response and is handled as a Nak is: the attempt has failed and the same
  packet is written again.  A chunk answered with fewer than \<open>max_retries\<close> Cancel bytes
  and then an Ack is accepted; only \<open>max_retries\<close> of them in a row end the transfer, after
  exactly \<open>max_retries\<close> writes of the packet.
\<close>

theorem C3_cancel_handled_as_nak:
  assumes "rx (ser s) = map Some junk @ Some 0x15 # script_of (map (\<lambda>k. replicate k (Some 0x18)) ks) @ tail"
    and "list_all (\<lambda>b. b \<noteq> 0x15) junk"
    and "list_all (\<lambda>k. int k < m) ks"
  shows "(length ks = (length data + 127) div 128 \<and> tail = Some 0x06 # rest \<longrightarrow>
            fst (send_file s data m)
          \<and> trace (ser (snd (send_file s data m))) =
              trace (ser s) @ handshake junk
                @ acked_run (packet_num s) data 0 (map (\<lambda>k. replicate k (Some 0x18)) ks)
                @ [Write [0x04], Read [0x06]])
       \<and> (128 * length ks < length data \<and> tail = replicate (nat m) (Some 0x18) @ rest \<and> 0 \<le> m \<longrightarrow>
            \<not> fst (send_file s data m)
          \<and> trace (ser (snd (send_file s data m))) =
              trace (ser s) @ handshake junk
                @ acked_run (packet_num s) data 0 (map (\<lambda>k. replicate k (Some 0x18)) ks)
                @ concat (replicate (nat m)
                    (attempt (packet_num s + int (length ks)) (chunk_at data (128 * length ks)) (Some 0x18))))"
proof -
  let ?bss = "map (\<lambda>k. replicate k (Some (0x18::byte))) ks"
  from assms(3) have bss: "list_all (bad_ok m) ?bss"
    by (induction ks) (simp_all add: bad_ok_def list_all_iff)
  show ?thesis
  proof (intro conjI impI)
    assume a: "length ks = (length data + 127) div 128 \<and> tail = Some 0x06 # rest"
    then have l: "length ?bss = (length data + 127) div 128" by simp
    from send_file_all_acked [OF assms(1,2) bss l] a
    show "fst (send_file s data m)"
      and "trace (ser (snd (send_file s data m))) =
              trace (ser s) @ handshake junk @ acked_run (packet_num s) data 0 ?bss
                @ [Write [0x04], Read [0x06]]"
      by (simp_all add: resp_def)
  next
    assume b: "128 * length ks < length data \<and> tail = replicate (nat m) (Some 0x18) @ rest \<and> 0 \<le> m"
    let ?bad = "replicate (nat m) (Some (0x18::byte))"
    from b assms(1) have 1: "rx (ser s) = map Some junk @ Some 0x15 # script_of ?bss @ ?bad @ rest"
      by simp
    have 2: "list_all (\<lambda>r. r \<noteq> Some 0x06) ?bad" by (simp add: list_all_iff)
    from b have 3: "int (length ?bad) = m" and 4: "128 * length ?bss < length data" by simp_all
    from send_file_retries_exhausted [OF 1 assms(2) bss 4 2 3]
    show "\<not> fst (send_file s data m)"
      and "trace (ser (snd (send_file s data m))) =
              trace (ser s) @ handshake junk @ acked_run (packet_num s) data 0 ?bss
                @ concat (replicate (nat m)
                    (attempt (packet_num s + int (length ks)) (chunk_at data (128 * length ks)) (Some 0x18)))"
      by (simp_all add: map_replicate_const)
  qed
qed

theorem C3_cancel_handled_as_nak_witness:
  "fst (send_file (XModemSender_init \<lparr>rx = [Some 0x15, Some 0x18, Some 0x18, Some 0x06, Some 0x06], trace = []\<rparr>) [0x41] 3)
   \<and> \<not> fst (send_file (XModemSender_init \<lparr>rx = [Some 0x15, Some 0x18, Some 0x18, Some 0x18, Some 0x06], trace = []\<rparr>) [0x41] 3)
   \<and> trace (ser (snd (send_file (XModemSender_init \<lparr>rx = [Some 0x15, Some 0x18, Some 0x18, Some 0x18, Some 0x06], trace = []\<rparr>) [0x41] 3))) =
       [Read [0x15], Write (build_packet 1 [0x41]), Read [0x18], Write (build_packet 1 [0x41]), Read [0x18],
        Write (build_packet 1 [0x41]), Read [0x18]]"
  using C3_cancel_handled_as_nak [of "XModemSender_init \<lparr>rx = [Some 0x15, Some 0x18, Some 0x18, Some 0x06, Some 0x06], trace = []\<rparr>"
      "[]" "[2]" "[Some 0x06]" 3 "[0x41]" "[]"]
    C3_cancel_handled_as_nak [of "XModemSender_init \<lparr>rx = [Some 0x15, Some 0x18, Some 0x18, Some 0x18, Some 0x06], trace = []\<rparr>"
      "[]" "[]" "[Some 0x18, Some 0x18, Some 0x18, Some 0x06]" 3 "[0x41]" "[Some 0x06]"]
  by (simp add: XModemSender_init_def script_of_def handshake_def attempt_def resp_def
      chunk_at_def numeral_3_eq_3 numeral_2_eq_2)






text \<open>
  C6.  When \<open>send_file\<close> returns \<open>True\<close>, the payloads of the acknowledged data packets
  are, in order and each exactly once, the chunks of the data padded with zero bytes to
  128.  There are \<open>ceil(len(data)/128)\<close> chunks, each of 1 to 128 bytes, chunk \<open>i\<close> is
  \<open>data[128*i : 128*i+128]\<close>, and their concatenation is the data.
\<close>

theorem C6_chunking:
  assumes "fst (send_file s data m)"
  shows "acked_payloads (drop (length (trace (ser s))) (trace (ser (snd (send_file s data m))))) =
           map pad128 (chunks_of data)
       \<and> length (chunks_of data) = (length data + 127) div 128
       \<and> concat (chunks_of data) = data
       \<and> list_all (\<lambda>c. 1 \<le> length c \<and> length c \<le> 128) (chunks_of data)
       \<and> (\<forall>i < length (chunks_of data). chunks_of data ! i = take 128 (drop (128 * i) data))"
  using acked_payloads_send_file [OF assms] length_chunks_of [of data] concat_chunks_of [of data]
    chunk_sizes [of data] nth_chunks_of [of _ data]
  by simp

theorem C6_chunking_witness:
  "fst (send_file (XModemSender_init \<lparr>rx = [Some 0x15, Some 0x06, Some 0x15, Some 0x06, Some 0x06], trace = []\<rparr>)
         (replicate 128 0x41 @ [0x42]) 10)
   \<and> acked_payloads (trace (ser (snd (send_file
         (XModemSender_init \<lparr>rx = [Some 0x15, Some 0x06, Some 0x15, Some 0x06, Some 0x06], trace = []\<rparr>)
         (replicate 128 0x41 @ [0x42]) 10)))) =
       map pad128 (chunks_of (replicate 128 0x41 @ [0x42]))
   \<and> length (chunks_of (replicate 128 0x41 @ [0x42 :: byte])) = 2
   \<and> concat (chunks_of (replicate 128 0x41 @ [0x42 :: byte])) = replicate 128 0x41 @ [0x42]
   \<and> chunks_of (replicate 128 0x41 @ [0x42 :: byte]) ! 1 = [0x42]"
proof -
  let ?s = "XModemSender_init \<lparr>rx = [Some 0x15, Some 0x06, Some 0x15, Some 0x06, Some 0x06], trace = []\<rparr>"
  let ?d = "replicate 128 0x41 @ [0x42 :: byte]"
  have h: "fst (send_file ?s ?d 10)"
    using send_file_all_acked [of ?s "[]" "[[], [Some 0x15]]" "[Some 0x06]" 10 ?d]
    by (simp add: XModemSender_init_def script_of_def bad_ok_def)
  from C6_chunking [OF h] have
    1: "acked_payloads (drop (length (trace (ser ?s))) (trace (ser (snd (send_file ?s ?d 10))))) =
           map pad128 (chunks_of ?d)"
    and 2: "length (chunks_of ?d) = (length ?d + 127) div 128"
    and 3: "concat (chunks_of ?d) = ?d"
    and 4: "\<forall>i < length (chunks_of ?d). chunks_of ?d ! i = take 128 (drop (128 * i) ?d)"
    by blast+
  from 2 have 2: "length (chunks_of ?d) = 2" by simp
  with 4 have "chunks_of ?d ! 1 = take 128 (drop (128 * 1) ?d)" by (simp del: mult_1_right)
  then have 5: "chunks_of ?d ! 1 = [0x42]" by simp
  from 1 have 1: "acked_payloads (trace (ser (snd (send_file ?s ?d 10)))) = map pad128 (chunks_of ?d)"
    by (simp add: XModemSender_init_def)
  from h 1 2 3 5 show ?thesis by blast
qed

text \<open>
  C7.  \<open>validate\<close> rejects an address below \<open>0x0200\<close> as \<open>TooLow\<close>, rejects an address
  above \<open>0x7FFF\<close> as \<open>InReservedSpace\<close> and accepts every other address; in particular
  \<open>0x01FF\<close> is too low, \<open>0x0200\<close> and \<open>0x7FFF\<close> are accepted and \<open>0x8000\<close> is in reserved
  space.  A load to an address that is rejected returns that error and leaves the serial
  port as it was: none of the later steps has run.
\<close>

theorem C7_address_validation:
  "(validate addr = Inl TooLow) = (uint addr < 0x0200)
   \<and> (validate addr = Inl InReservedSpace) = (uint addr > 0x7FFF)
   \<and> (validate addr = Inr ()) = (0x0200 \<le> uint addr \<and> uint addr \<le> 0x7FFF)
   \<and> validate 0x01FF = Inl TooLow
   \<and> validate 0x0200 = Inr ()
   \<and> validate 0x7FFF = Inr ()
   \<and> validate 0x8000 = Inl InReservedSpace
   \<and> (validate (target_address request) = Inl e \<longrightarrow>
         load steps_2_to_6 request p = (Inl e, p))"
  by (auto simp: validate_def load_def word_less_def)

theorem C7_address_validation_witness:
  "validate 0x0100 = Inl TooLow
   \<and> load (\<lambda>r p. (True, ser_write p [0x4C, 0x0D])) \<lparr>target_address = 0x0100, payload = [0x41], execute = False\<rparr>
        \<lparr>rx = [], trace = [Open]\<rparr> = (Inl TooLow, \<lparr>rx = [], trace = [Open]\<rparr>)"
  using C7_address_validation [of "0x0100" "\<lparr>target_address = 0x0100, payload = [0x41], execute = False\<rparr>"
      TooLow "\<lambda>r p. (True, ser_write p [0x4C, 0x0D])" "\<lparr>rx = [], trace = [Open]\<rparr>"]
  by simp







text \<open>
  C10.  For a binary file that exists and is empty, \<open>load_program\<close> returns exit code 1
  and has done nothing to the serial port: it is not opened (whether or not it could be),
  nothing is written and nothing is read.
\<close>

theorem C10_empty_file_exits_before_open:
  "load_program (Contents []) port execute_flag = (1, [])"
  by (simp add: load_program_def)

end
